theory Spec2Isabelle
  imports Complex_Main "HOL-Library.Word"
begin

section \<open>Values thrown by JavaScript code\<close>

text \<open>
  A rejected promise or a \<open>throw\<close> carries an arbitrary JavaScript value. The two
  classifiers of the source look at three things only: whether the value is an instance
  of \<open>Error\<close> (then it has a \<open>message\<close>), whether it is a non-null object, and
  whether it has a \<open>code\<close> property (kept here already converted by \<open>String(...)\<close>).
  \<open>NonObject\<close> stands for \<open>undefined\<close>, \<open>null\<close> and every primitive.
\<close>

datatype js_thrown =
    ErrorInstance string "string option"
  | OtherObject "string option"
  | NonObject

text \<open>\<open>String.prototype.includes\<close>: the argument occurs as a contiguous run.\<close>

fun startsWith :: "string \<Rightarrow> string \<Rightarrow> bool" where
  "startsWith s [] = True"
| "startsWith [] (c # cs) = False"
| "startsWith (d # ds) (c # cs) = (d = c \<and> startsWith ds cs)"

fun str_includes :: "string \<Rightarrow> string \<Rightarrow> bool" where
  "str_includes [] sub = (sub = [])"
| "str_includes (d # ds) sub = (startsWith (d # ds) sub \<or> str_includes ds sub)"

section \<open>The batch queue (src/lib/utils/batch-queue.ts)\<close>

text \<open>
  \<open>class BatchQueue<T>\<close>: the buffer, the processing flag, the batch size given to the
  constructor, and whether the interval timer is armed (\<open>flushInterval\<close> is not null).
  The batch size is a non-negative whole number.
\<close>

record 'a BatchQueue =
  queue :: "'a list"
  isProcessing :: bool
  maxBatchSize :: nat
  flushInterval :: bool

text \<open>The constructor: an empty buffer, the flag clear, the timer started.\<close>

definition newBatchQueue :: "nat \<Rightarrow> 'a BatchQueue" where
  "newBatchQueue n = \<lparr>queue = [], isProcessing = False, maxBatchSize = n, flushInterval = True\<rparr>"

text \<open>
  The test of the \<open>catch\<close> block of \<open>flush\<close> (lines 96 to 100):
  \<open>error && typeof error === 'object' && 'code' in error &&
  (String(error.code).includes('23505') || String(error.code).includes('23503'))\<close>.
\<close>

fun isIgnorableError :: "js_thrown \<Rightarrow> bool" where
  "isIgnorableError (ErrorInstance msg (Some c)) = (str_includes c ''23505'' \<or> str_includes c ''23503'')"
| "isIgnorableError (OtherObject (Some c)) = (str_includes c ''23505'' \<or> str_includes c ''23503'')"
| "isIgnorableError _ = False"

text \<open>
  \<open>flush\<close> is an async function: it runs synchronously up to \<open>await this.insertFn(...)\<close>,
  is suspended there, and runs its \<open>catch\<close>/\<open>finally\<close> part when the promise of
  \<open>insertFn\<close> settles. The two halves are \<open>flush_begin\<close> and \<open>flush_end\<close>; between them
  other turns of the event loop may call \<open>add\<close> and \<open>flush\<close>. \<open>Awaiting xs\<close> says that
  \<open>insertFn\<close> was called with \<open>xs\<close>; \<open>NoOp\<close> that \<open>flush\<close> returned without calling it.
  The buffer is always an array, so the test \<open>!this.queue\<close> of line 75 is false.
  Output to the console is left out.
\<close>

datatype 'a flush_start = NoOp | Awaiting "'a list"

definition flush_begin :: "'a BatchQueue \<Rightarrow> 'a flush_start \<times> 'a BatchQueue" where
  "flush_begin s =
     (if isProcessing s \<or> length (queue s) = 0 then (NoOp, s)
      else
        let itemsToInsert = queue s;
            s1 = s\<lparr>isProcessing := True, queue := []\<rparr>
        in if length itemsToInsert = 0 then (NoOp, s1\<lparr>isProcessing := False\<rparr>)
           else (Awaiting itemsToInsert, s1))"

datatype persist_outcome = Resolved | Rejected js_thrown

definition maxQueueSize :: nat where
  "maxQueueSize = 2000"

text \<open>
  \<open>this.queue.unshift(...xs)\<close> passes every element of \<open>xs\<close> as an argument of one
  call. An engine passes only so many arguments; \<open>maxArgs\<close> is the largest number it
  passes (on Node about 125000). With more elements the call throws a \<open>RangeError\<close>
  before anything is put into the buffer; otherwise \<open>xs\<close> stands in front of the buffer,
  in order. A \<open>RangeError\<close> is an instance of \<open>Error\<close> without a \<open>code\<close>; its
  message is the engine's.
\<close>

definition rangeError :: js_thrown where
  "rangeError = ErrorInstance ''Maximum call stack size exceeded'' None"

definition unshiftSpread :: "nat \<Rightarrow> 'a list \<Rightarrow> 'a list \<Rightarrow> js_thrown + 'a list" where
  "unshiftSpread maxArgs q xs = (if length xs \<le> maxArgs then Inr (xs @ q) else Inl rangeError)"

text \<open>
  The continuation of \<open>flush\<close>. The result is what the promise of \<open>flush()\<close> settles to:
  \<open>Inr ()\<close> when it resolves, \<open>Inl error\<close> when it rejects. \<open>slice(0, 1000)\<close> is
  \<open>take 1000\<close>. When \<open>unshift\<close> throws inside the \<open>catch\<close> block, \<open>throw error\<close> is
  not reached and \<open>flush()\<close> rejects with what \<open>unshift\<close> threw; the \<open>finally\<close> block
  runs in every case.
\<close>

definition flush_end ::
  "nat \<Rightarrow> 'a BatchQueue \<Rightarrow> 'a list \<Rightarrow> persist_outcome \<Rightarrow> (js_thrown + unit) \<times> 'a BatchQueue" where
  "flush_end maxArgs s itemsToInsert outcome =
     (case outcome of
        Resolved \<Rightarrow> (Inr (), s\<lparr>isProcessing := False\<rparr>)
      | Rejected error \<Rightarrow>
          if \<not> isIgnorableError error then
            (case (if length (queue s) < maxQueueSize
                   then unshiftSpread maxArgs (queue s) itemsToInsert
                   else unshiftSpread maxArgs (queue s) (take 1000 itemsToInsert)) of
               Inl thrown \<Rightarrow> (Inl thrown, s\<lparr>isProcessing := False\<rparr>)
             | Inr q \<Rightarrow> (Inl error, s\<lparr>queue := q, isProcessing := False\<rparr>))
          else (Inr (), s\<lparr>isProcessing := False\<rparr>))"

text \<open>
  \<open>add\<close>: push, then call \<open>flush()\<close> when the batch size is reached. The first component
  says whether \<open>flush()\<close> was called and what its synchronous part did; the promise it
  returns gets \<open>.catch(() => {})\<close>, so its outcome never reaches the caller of \<open>add\<close>.
\<close>

definition add :: "'a BatchQueue \<Rightarrow> 'a \<Rightarrow> 'a flush_start option \<times> 'a BatchQueue" where
  "add s item =
     (let s1 = s\<lparr>queue := queue s @ [item]\<rparr>
      in if length (queue s1) \<ge> maxBatchSize s1
         then (let (r, s2) = flush_begin s1 in (Some r, s2))
         else (None, s1))"

text \<open>The callback of \<open>setInterval\<close>: flush when the buffer is not empty.\<close>

definition timerTick :: "'a BatchQueue \<Rightarrow> 'a flush_start option \<times> 'a BatchQueue" where
  "timerTick s =
     (if length (queue s) > 0 then (let (r, s1) = flush_begin s in (Some r, s1))
      else (None, s))"

text \<open>\<open>destroy\<close>: clear the timer, then one flush that nobody awaits.\<close>

definition destroy :: "'a BatchQueue \<Rightarrow> 'a flush_start option \<times> 'a BatchQueue" where
  "destroy s =
     (let s1 = (if flushInterval s then s\<lparr>flushInterval := False\<rparr> else s)
      in if length (queue s1) > 0 then (let (r, s2) = flush_begin s1 in (Some r, s2))
         else (None, s1))"

subsection \<open>One queue under the event loop\<close>

text \<open>
  JavaScript runs one turn at a time, each to completion. A turn is a call of \<open>add\<close>,
  a call of \<open>flush()\<close> by a caller who awaits it, a tick of the timer (only while the
  timer is armed), \<open>destroy\<close>, or the settling of the persist call of a suspended
  flush. The system state keeps, beside the queue object: the suspended flushes (who
  started each and its snapshot \<open>itemsToInsert\<close>), the log of all calls of \<open>insertFn\<close>,
  and the rejections delivered to callers that await \<open>flush()\<close>. Rejections of the
  flushes started by \<open>add\<close>, the timer and \<open>destroy\<close> end in their \<open>.catch\<close> handlers.
  \<open>maxArgs\<close> is the engine's limit on the arguments of one call.
\<close>

datatype trigger = BySize | ByTimer | ByCaller | ByDestroy

datatype 'a event = Add 'a | Flush | TimerTick | Destroy | Settle persist_outcome

record 'a system =
  bq :: "'a BatchQueue"
  inflight :: "(trigger \<times> 'a list) list"
  persistCalls :: "'a list list"
  raised :: "js_thrown list"

definition newSystem :: "nat \<Rightarrow> 'a system" where
  "newSystem n = \<lparr>bq = newBatchQueue n, inflight = [], persistCalls = [], raised = []\<rparr>"

definition started :: "trigger \<Rightarrow> 'a flush_start option \<times> 'a BatchQueue \<Rightarrow> 'a system \<Rightarrow> 'a system" where
  "started t r sys =
     (case fst r of
        Some (Awaiting items) \<Rightarrow>
          sys\<lparr>bq := snd r, inflight := inflight sys @ [(t, items)],
              persistCalls := persistCalls sys @ [items]\<rparr>
      | _ \<Rightarrow> sys\<lparr>bq := snd r\<rparr>)"

fun step :: "nat \<Rightarrow> 'a system \<Rightarrow> 'a event \<Rightarrow> 'a system" where
  "step maxArgs sys (Add x) = started BySize (add (bq sys) x) sys"
| "step maxArgs sys Flush =
     (let (r, s1) = flush_begin (bq sys) in started ByCaller (Some r, s1) sys)"
| "step maxArgs sys TimerTick =
     (if flushInterval (bq sys) then started ByTimer (timerTick (bq sys)) sys else sys)"
| "step maxArgs sys Destroy = started ByDestroy (destroy (bq sys)) sys"
| "step maxArgs sys (Settle outcome) =
     (case inflight sys of
        [] \<Rightarrow> sys
      | (t, items) # rest \<Rightarrow>
          (let (res, s1) = flush_end maxArgs (bq sys) items outcome;
               sys1 = sys\<lparr>bq := s1, inflight := rest\<rparr>
           in case res of
                Inl error \<Rightarrow> if t = ByCaller then sys1\<lparr>raised := raised sys1 @ [error]\<rparr> else sys1
              | Inr u \<Rightarrow> sys1))"

fun run :: "nat \<Rightarrow> 'a system \<Rightarrow> 'a event list \<Rightarrow> 'a system" where
  "run maxArgs sys [] = sys"
| "run maxArgs sys (e # es) = run maxArgs (step maxArgs sys e) es"

section \<open>The enqueue entry points (src/lib/utils/batch-queue.ts, lines 138 to 289)\<close>

text \<open>
  \<open>ViewRecord\<close> and \<open>ClickRecord\<close>. The three fields the two interfaces share are
  declared once. The interfaces type the reference fields as \<open>string\<close>, but
  \<open>addView\<close> and \<open>addClick\<close> test them for being absent at run time, so a reference
  field is \<open>None\<close> when it is \<open>undefined\<close> or \<open>null\<close>. The argument of the entry
  points is itself \<open>None\<close> when it is \<open>undefined\<close> or \<open>null\<close>.
\<close>

record EventRecord =
  linktree_id :: "string option"
  ip_address :: "string option"
  session_id :: "string option"

record ViewRecord = EventRecord +
  viewed_at :: string

record ClickRecord = EventRecord +
  link_id :: "string option"
  clicked_at :: string

text \<open>
  \<open>String.prototype.trim\<close> strips white space and line terminators from both ends.
  A \<open>char\<close> is one code unit below 256; of the characters JavaScript strips these are
  tab, line feed, vertical tab, form feed, carriage return, space and no-break space.
\<close>

definition isWhiteSpace :: "char \<Rightarrow> bool" where
  "isWhiteSpace c = (c \<in> set [CHR 0x09, CHR 0x0A, CHR 0x0B, CHR 0x0C, CHR 0x0D, CHR 0x20, CHR 0xA0])"

definition trim :: "string \<Rightarrow> string" where
  "trim s = rev (dropWhile isWhiteSpace (rev (dropWhile isWhiteSpace s)))"

text \<open>The test \<open>!x || !x.trim()\<close>: the empty string is falsy.\<close>

definition blank :: "string option \<Rightarrow> bool" where
  "blank x = (case x of None \<Rightarrow> True | Some s \<Rightarrow> s = [] \<or> trim s = [])"

text \<open>The module's two global queues, \<open>null\<close> until \<open>initializeQueues\<close> has run.\<close>

record queues =
  viewQueue :: "ViewRecord BatchQueue option"
  clickQueue :: "ClickRecord BatchQueue option"

text \<open>
  \<open>initializeQueues\<close>; the first argument is \<open>typeof window !== 'undefined'\<close>. Both
  queues are constructed with batch size 1000.
\<close>

definition initializeQueues :: "bool \<Rightarrow> queues \<Rightarrow> queues" where
  "initializeQueues window st =
     (if window then st
      else
        let st1 = (if viewQueue st = None then st\<lparr>viewQueue := Some (newBatchQueue 1000)\<rparr> else st)
        in if clickQueue st1 = None then st1\<lparr>clickQueue := Some (newBatchQueue 1000)\<rparr> else st1)"

text \<open>
  \<open>addView\<close> and \<open>addClick\<close>. Neither has a \<open>throw\<close>, and \<open>add\<close> returns \<open>void\<close>:
  the promise they return always resolves. The first component of the result is what
  \<open>add\<close> reports (\<open>None\<close> also when \<open>add\<close> was not called).
\<close>

definition addView ::
  "bool \<Rightarrow> queues \<Rightarrow> ViewRecord option \<Rightarrow> ViewRecord flush_start option \<times> queues" where
  "addView window st view =
     (case view of
        None \<Rightarrow> (None, st)
      | Some v \<Rightarrow>
          if blank (linktree_id v) \<or> blank (ip_address v) then (None, st)
          else
            let st1 = (if viewQueue st = None then initializeQueues window st else st)
            in case viewQueue st1 of
                 None \<Rightarrow> (None, st1)
               | Some q \<Rightarrow> (let (r, q1) = add q v in (r, st1\<lparr>viewQueue := Some q1\<rparr>)))"

definition addClick ::
  "bool \<Rightarrow> queues \<Rightarrow> ClickRecord option \<Rightarrow> ClickRecord flush_start option \<times> queues" where
  "addClick window st click =
     (case click of
        None \<Rightarrow> (None, st)
      | Some c \<Rightarrow>
          if blank (link_id c) \<or> blank (linktree_id c) \<or> blank (ip_address c) then (None, st)
          else
            let st1 = (if clickQueue st = None then initializeQueues window st else st)
            in case clickQueue st1 of
                 None \<Rightarrow> (None, st1)
               | Some q \<Rightarrow> (let (r, q1) = add q c in (r, st1\<lparr>clickQueue := Some q1\<rparr>)))"

definition viewBuffer :: "queues \<Rightarrow> ViewRecord list" where
  "viewBuffer st = (case viewQueue st of None \<Rightarrow> [] | Some q \<Rightarrow> queue q)"

definition clickBuffer :: "queues \<Rightarrow> ClickRecord list" where
  "clickBuffer st = (case clickQueue st of None \<Rightarrow> [] | Some q \<Rightarrow> queue q)"

text \<open>
  The specification's wording of a well-formed event: every required reference field
  is there and is not empty after trimming.
\<close>

definition nonEmptyAfterTrim :: "string option \<Rightarrow> bool" where
  "nonEmptyAfterTrim f = (case f of None \<Rightarrow> False | Some s \<Rightarrow> trim s \<noteq> [])"

definition validView :: "ViewRecord option \<Rightarrow> bool" where
  "validView view =
     (case view of None \<Rightarrow> False
      | Some v \<Rightarrow> nonEmptyAfterTrim (linktree_id v) \<and> nonEmptyAfterTrim (ip_address v))"

definition validClick :: "ClickRecord option \<Rightarrow> bool" where
  "validClick click =
     (case click of None \<Rightarrow> False
      | Some c \<Rightarrow> nonEmptyAfterTrim (link_id c) \<and> nonEmptyAfterTrim (linktree_id c) \<and>
                 nonEmptyAfterTrim (ip_address c))"

section \<open>The retry wrapper (src/lib/supabase/queries.ts, lines 5 to 41)\<close>

text \<open>
  The test of lines 20 to 26: \<open>error instanceof Error\<close> and one of four
  \<open>message.includes(...)\<close>.
\<close>

fun isTimeoutError :: "js_thrown \<Rightarrow> bool" where
  "isTimeoutError (ErrorInstance message code) =
     (str_includes message ''timeout'' \<or> str_includes message ''TIMEOUT'' \<or>
      str_includes message ''Connect Timeout'' \<or> str_includes message ''fetch failed'')"
| "isTimeoutError _ = False"

text \<open>
  The \<open>for\<close> loop of \<open>retryWithBackoff\<close>. The operation \<open>fn\<close> takes no argument and
  may answer differently each time it is called; \<open>fn i\<close> is the outcome of its call
  number \<open>i\<close> (from 0), which is the call of attempt \<open>i\<close>. \<open>maxRetries\<close> and
  \<open>initialDelay\<close> are whole numbers (milliseconds), \<open>maxRetries\<close> possibly negative.
  The loop returns what the wrapper settles to, the delays it has slept in order, and how
  many times it has called \<open>fn\<close>. \<open>lastError\<close> starts as \<open>undefined\<close>.
\<close>

function retryLoop ::
  "(nat \<Rightarrow> js_thrown + 'a) \<Rightarrow> int \<Rightarrow> int \<Rightarrow> nat \<Rightarrow> js_thrown \<Rightarrow> int list
     \<Rightarrow> (js_thrown + 'a) \<times> int list \<times> nat" where
  "retryLoop fn maxRetries initialDelay attempt lastError delays =
     (if int attempt \<le> maxRetries then
        (case fn attempt of
           Inr v \<Rightarrow> (Inr v, delays, Suc attempt)
         | Inl error \<Rightarrow>
             if isTimeoutError error \<and> int attempt < maxRetries
             then retryLoop fn maxRetries initialDelay (Suc attempt) error
                    (delays @ [initialDelay * 2 ^ attempt])
             else (Inl error, delays, Suc attempt))
      else (Inl lastError, delays, attempt))"
  by pat_completeness auto
termination
  by (relation "measure (\<lambda>(fn, maxRetries, initialDelay, attempt, lastError, delays).
                  nat (maxRetries + 1 - int attempt))") auto

declare retryLoop.simps [simp del]

definition retryWithBackoff ::
  "(nat \<Rightarrow> js_thrown + 'a) \<Rightarrow> int \<Rightarrow> int \<Rightarrow> (js_thrown + 'a) \<times> int list \<times> nat" where
  "retryWithBackoff fn maxRetries initialDelay = retryLoop fn maxRetries initialDelay 0 NonObject []"

text \<open>
  The specification's wording of the classification, to compare with \<open>isTimeoutError\<close>:
  the message contains "timeout" in any mix of upper and lower case, or
  "connect timeout", or "fetch failed".
\<close>

definition toLowerCase :: "string \<Rightarrow> string" where
  "toLowerCase s =
     map (\<lambda>c. let n = (of_char c :: nat) in if 65 \<le> n \<and> n \<le> 90 then char_of (n + 32) else c) s"

definition spec_retryable :: "string \<Rightarrow> bool" where
  "spec_retryable message =
     (str_includes (toLowerCase message) ''timeout'' \<or> str_includes message ''connect timeout'' \<or>
      str_includes message ''fetch failed'')"

section \<open>The identifier generator (src/lib/supabase/queries.ts, lines 43 to 62 and 244 to 268)\<close>

definition uidAlphabet :: string where
  "uidAlphabet = ''abcdefghijklmnopqrstuvwxyz0123456789-''"

text \<open>
  What one call of \<open>generateUid\<close> draws: with the crypto API the \<open>Uint32Array\<close> filled
  by \<open>getRandomValues\<close> (its entry at each index), without it the successive results
  of \<open>Math.random()\<close>, which lie in \<open>[0, 1)\<close> and are taken as real numbers.
\<close>

datatype random_source = CryptoValues "nat \<Rightarrow> 32 word" | MathRandom "nat \<Rightarrow> real"

text \<open>
  \<open>uidAlphabet[i]\<close> as \<open>+=\<close> appends it: one character, or the text of
  \<open>undefined\<close> when the index is out of range.
\<close>

definition charAt :: "string \<Rightarrow> nat \<Rightarrow> string" where
  "charAt s i = (if i < length s then [s ! i] else ''undefined'')"

definition generateUid :: "nat \<Rightarrow> random_source \<Rightarrow> string" where
  "generateUid len src =
     (case src of
        CryptoValues randomValues \<Rightarrow>
          concat (map (\<lambda>i. charAt uidAlphabet (unat (randomValues i) mod length uidAlphabet)) [0..<len])
      | MathRandom random \<Rightarrow>
          concat (map (\<lambda>i. charAt uidAlphabet (nat \<lfloor>random i * real (length uidAlphabet)\<rfloor>)) [0..<len]))"

definition maxAttempts :: nat where
  "maxAttempts = 10"

text \<open>
  The error of line 267. The source throws a plain \<open>Error\<close> with this message; the
  specification calls it GenerationExhausted.
\<close>

definition GenerationExhausted :: js_thrown where
  "GenerationExhausted = ErrorInstance ''Failed to generate unique identifier after multiple attempts'' None"

text \<open>
  The \<open>while\<close> loop of \<open>createLinktree\<close>. \<open>rnd k\<close> is what call number \<open>k\<close> of
  \<open>generateUid\<close> draws; \<open>lookup k uid\<close> is the outcome of query number \<open>k\<close>
  (\<open>SELECT id FROM linktrees WHERE uid = $1\<close>): it throws, or gives \<open>rows\<close>, which
  may be absent. The loop returns \<open>uid\<close> and \<open>attempts\<close> as they are when it ends, or
  the error of the query, and beside it how many times \<open>generateUid\<close> was called.
\<close>

function uidLoop ::
  "(nat \<Rightarrow> random_source) \<Rightarrow> (nat \<Rightarrow> string \<Rightarrow> js_thrown + string list option) \<Rightarrow> nat
     \<Rightarrow> (js_thrown + string option \<times> nat) \<times> nat" where
  "uidLoop rnd lookup attempts =
     (if attempts < maxAttempts then
        (let uid = generateUid 21 (rnd attempts)
         in case lookup attempts uid of
              Inl error \<Rightarrow> (Inl error, Suc attempts)
            | Inr rows \<Rightarrow>
                (case rows of
                   None \<Rightarrow> (Inr (Some uid, attempts), Suc attempts)
                 | Some ids \<Rightarrow>
                     if length ids = 0 then (Inr (Some uid, attempts), Suc attempts)
                     else uidLoop rnd lookup (Suc attempts)))
      else (Inr (None, attempts), attempts))"
  by pat_completeness auto
termination
  by (relation "measure (\<lambda>(rnd, lookup, attempts). maxAttempts - attempts)") auto

declare uidLoop.simps [simp del]

text \<open>
  Lines 245 to 268 of \<open>createLinktree\<close>: the loop, then
  \<open>if (!uid || attempts >= maxAttempts) throw ...\<close>. What follows in the source
  inserts the rows and is not part of the generator.
\<close>

definition createLinktreeUid ::
  "(nat \<Rightarrow> random_source) \<Rightarrow> (nat \<Rightarrow> string \<Rightarrow> js_thrown + string list option)
     \<Rightarrow> (js_thrown + string) \<times> nat" where
  "createLinktreeUid rnd lookup =
     (case uidLoop rnd lookup 0 of
        (Inl error, generated) \<Rightarrow> (Inl error, generated)
      | (Inr (uid, attempts), generated) \<Rightarrow>
          (case uid of
             None \<Rightarrow> (Inl GenerationExhausted, generated)
           | Some u \<Rightarrow>
               if u = [] \<or> attempts \<ge> maxAttempts then (Inl GenerationExhausted, generated)
               else (Inr u, generated)))"

text \<open>The random values a call may draw, and the two answers of the uniqueness lookup.\<close>

definition validSource :: "nat \<Rightarrow> random_source \<Rightarrow> bool" where
  "validSource len src =
     (case src of CryptoValues randomValues \<Rightarrow> True
      | MathRandom random \<Rightarrow> (\<forall>i<len. 0 \<le> random i \<and> random i < 1))"

definition collides :: "js_thrown + string list option \<Rightarrow> bool" where
  "collides r = (case r of Inr (Some ids) \<Rightarrow> ids \<noteq> [] | _ \<Rightarrow> False)"

definition unique :: "js_thrown + string list option \<Rightarrow> bool" where
  "unique r = (r = Inr None \<or> r = Inr (Some []))"

section \<open>Invariants and sample inputs\<close>

text \<open>
  The invariant of mutual exclusion: at most one flush is suspended, and the processing
  flag is set exactly while one is.
\<close>

definition single_flight :: "'a system \<Rightarrow> bool" where
  "single_flight sys =
     (length (inflight sys) \<le> 1 \<and> (isProcessing (bq sys) \<longleftrightarrow> inflight sys \<noteq> []))"

text \<open>No rejection has reached a caller, and no suspended flush has a caller awaiting it.\<close>

definition no_caller :: "'a system \<Rightarrow> bool" where
  "no_caller sys = (raised sys = [] \<and> (\<forall>p \<in> set (inflight sys). fst p \<noteq> ByCaller))"

text \<open>Failures of the persist call: a network failure, and a duplicate key (code 23505).\<close>

definition networkError :: js_thrown where
  "networkError = ErrorInstance ''fetch failed'' None"

definition duplicateError :: js_thrown where
  "duplicateError = ErrorInstance ''duplicate key value violates unique constraint'' (Some ''23505'')"

text \<open>An engine that passes at most 125000 arguments in one call.\<close>

definition engineLimit :: nat where
  "engineLimit = 125000"

text \<open>A queue of the default batch size whose flush is suspended, holding \<open>xs\<close>.\<close>

definition busyQueue :: "nat list \<Rightarrow> nat BatchQueue" where
  "busyQueue xs = \<lparr>queue = xs, isProcessing = True, maxBatchSize = 1000, flushInterval = True\<rparr>"

text \<open>Operations for the retry wrapper.\<close>

definition failTwiceThenOk :: "nat \<Rightarrow> js_thrown + string" where
  "failTwiceThenOk i = (if i < 2 then Inl (ErrorInstance ''statement timeout'' None) else Inr ''row'')"

definition alwaysFails :: "js_thrown \<Rightarrow> nat \<Rightarrow> js_thrown + string" where
  "alwaysFails e i = Inl e"

text \<open>Random values and uniqueness lookups for the identifier generator.\<close>

definition counterRandom :: "nat \<Rightarrow> random_source" where
  "counterRandom k = CryptoValues (\<lambda>i. of_nat (k + i))"

definition halfRandom :: random_source where
  "halfRandom = MathRandom (\<lambda>i. 1 / 2)"

definition collideTwice :: "nat \<Rightarrow> string \<Rightarrow> js_thrown + string list option" where
  "collideTwice k uid = (if k < 2 then Inr (Some [''existing-id'']) else Inr (Some []))"

definition alwaysCollide :: "nat \<Rightarrow> string \<Rightarrow> js_thrown + string list option" where
  "alwaysCollide k uid = Inr (Some [''existing-id''])"

text \<open>Events and module states for the entry points.\<close>

definition emptyQueues :: queues where
  "emptyQueues = \<lparr>viewQueue = Some (newBatchQueue 1000), clickQueue = Some (newBatchQueue 1000)\<rparr>"

definition sampleView :: "string \<Rightarrow> ViewRecord" where
  "sampleView page = \<lparr>linktree_id = Some page, ip_address = Some ''203.0.113.7'', session_id = None,
     viewed_at = ''2025-01-01T00:00:00.000Z''\<rparr>"

definition sampleClick :: "string \<Rightarrow> ClickRecord" where
  "sampleClick link = \<lparr>linktree_id = Some ''P1'', ip_address = Some ''203.0.113.7'',
     session_id = None, link_id = Some link, clicked_at = ''2025-01-01T00:00:00.000Z''\<rparr>"

section \<open>Strings\<close>

lemma startsWith_iff: "startsWith s sub \<longleftrightarrow> (\<exists>post. s = sub @ post)"
  by (induction s sub rule: startsWith.induct) auto

lemma str_includes_iff: "str_includes s sub \<longleftrightarrow> (\<exists>pre post. s = pre @ sub @ post)"
proof (induction s)
  case Nil
  then show ?case by auto
next
  case (Cons d ds)
  show ?case
  proof
    assume "str_includes (d # ds) sub"
    then consider "startsWith (d # ds) sub" | "str_includes ds sub" by auto
    then show "\<exists>pre post. d # ds = pre @ sub @ post"
    proof cases
      case 1
      then obtain post where "d # ds = sub @ post" by (auto simp: startsWith_iff)
      then have "d # ds = [] @ sub @ post" by simp
      then show ?thesis by blast
    next
      case 2
      with Cons.IH obtain pre post where "ds = pre @ sub @ post" by auto
      then have "d # ds = (d # pre) @ sub @ post" by simp
      then show ?thesis by blast
    qed
  next
    assume "\<exists>pre post. d # ds = pre @ sub @ post"
    then obtain pre post where eq: "d # ds = pre @ sub @ post" by auto
    show "str_includes (d # ds) sub"
    proof (cases pre)
      case Nil
      with eq have "startsWith (d # ds) sub" by (auto simp: startsWith_iff)
      then show ?thesis by simp
    next
      case (Cons p ps)
      with eq have "ds = ps @ sub @ post" by simp
      with Cons.IH have "str_includes ds sub" by blast
      then show ?thesis by simp
    qed
  qed
qed

lemma trim_empty_iff: "trim s = [] \<longleftrightarrow> (\<forall>c \<in> set s. isWhiteSpace c)"
proof -
  have "trim s = [] \<longleftrightarrow> dropWhile isWhiteSpace (rev (dropWhile isWhiteSpace s)) = []"
    by (simp add: trim_def)
  also have "\<dots> \<longleftrightarrow> (\<forall>c \<in> set (dropWhile isWhiteSpace s). isWhiteSpace c)"
    by simp
  also have "\<dots> \<longleftrightarrow> (\<forall>c \<in> set s. isWhiteSpace c)"
  proof
    assume a: "\<forall>c \<in> set (dropWhile isWhiteSpace s). isWhiteSpace c"
    have "dropWhile isWhiteSpace s = []"
    proof (cases "dropWhile isWhiteSpace s")
      case Nil
      then show ?thesis .
    next
      case (Cons x xs)
      then have "\<not> isWhiteSpace x" using hd_dropWhile[of isWhiteSpace s] by simp
      moreover have "x \<in> set (dropWhile isWhiteSpace s)" using Cons by simp
      ultimately show ?thesis using a by blast
    qed
    then show "\<forall>c \<in> set s. isWhiteSpace c" by simp
  next
    assume "\<forall>c \<in> set s. isWhiteSpace c"
    then show "\<forall>c \<in> set (dropWhile isWhiteSpace s). isWhiteSpace c"
      using set_dropWhileD by fastforce
  qed
  finally show ?thesis .
qed

lemma blank_iff: "blank x \<longleftrightarrow> \<not> nonEmptyAfterTrim x"
  by (auto simp: blank_def nonEmptyAfterTrim_def trim_def split: option.splits)

section \<open>The batch queue: one flush at a time\<close>

lemma flush_begin_noop: "isProcessing s \<or> queue s = [] \<Longrightarrow> flush_begin s = (NoOp, s)"
  by (simp add: flush_begin_def)

lemma flush_begin_submit:
  "\<not> isProcessing s \<Longrightarrow> queue s \<noteq> [] \<Longrightarrow>
     flush_begin s = (Awaiting (queue s), s\<lparr>isProcessing := True, queue := []\<rparr>)"
  by (simp add: flush_begin_def Let_def)

lemma flush_end_flag: "isProcessing (snd (flush_end maxArgs s items outcome)) = False"
  by (simp add: flush_end_def split: persist_outcome.splits sum.splits)

lemma single_flight_new: "single_flight (newSystem n)"
  by (simp add: single_flight_def newSystem_def newBatchQueue_def)

lemma single_flight_started:
  assumes "single_flight sys" and "flush_begin s = (r, s')" and "isProcessing s = isProcessing (bq sys)"
  shows "single_flight (started t (Some r, s') sys)"
proof (cases "isProcessing s \<or> queue s = []")
  case True
  with assms show ?thesis
    by (auto simp: flush_begin_noop started_def single_flight_def)
next
  case False
  with assms show ?thesis
    by (auto simp: flush_begin_submit started_def single_flight_def)
qed

lemma single_flight_step: "single_flight sys \<Longrightarrow> single_flight (step maxArgs sys e)"
proof (cases e)
  case (Add x)
  assume inv: "single_flight sys"
  show ?thesis
  proof (cases "length (queue (bq sys) @ [x]) \<ge> maxBatchSize (bq sys)")
    case True
    obtain r s' where fb: "flush_begin ((bq sys)\<lparr>queue := queue (bq sys) @ [x]\<rparr>) = (r, s')"
      by (cases "flush_begin ((bq sys)\<lparr>queue := queue (bq sys) @ [x]\<rparr>)")
    with True have "add (bq sys) x = (Some r, s')" by (simp add: add_def Let_def)
    with single_flight_started[OF inv fb] Add show ?thesis by simp
  next
    case False
    then have "add (bq sys) x = (None, (bq sys)\<lparr>queue := queue (bq sys) @ [x]\<rparr>)"
      by (simp add: add_def Let_def)
    with inv Add show ?thesis by (simp add: started_def single_flight_def)
  qed
next
  case Flush
  assume inv: "single_flight sys"
  obtain r s' where fb: "flush_begin (bq sys) = (r, s')" by (cases "flush_begin (bq sys)")
  with single_flight_started[OF inv fb] Flush show ?thesis by simp
next
  case TimerTick
  assume inv: "single_flight sys"
  obtain r s' where fb: "flush_begin (bq sys) = (r, s')" by (cases "flush_begin (bq sys)")
  show ?thesis
  proof (cases "flushInterval (bq sys) \<and> length (queue (bq sys)) > 0")
    case True
    with fb have "timerTick (bq sys) = (Some r, s')" by (simp add: timerTick_def)
    with single_flight_started[OF inv fb] TimerTick True show ?thesis by simp
  next
    case False
    with inv TimerTick show ?thesis
      by (auto simp: timerTick_def started_def single_flight_def)
  qed
next
  case Destroy
  assume inv: "single_flight sys"
  let ?s1 = "if flushInterval (bq sys) then (bq sys)\<lparr>flushInterval := False\<rparr> else bq sys"
  obtain r s' where fb: "flush_begin ?s1 = (r, s')" by (cases "flush_begin ?s1")
  show ?thesis
  proof (cases "length (queue ?s1) > 0")
    case True
    with fb have "destroy (bq sys) = (Some r, s')" by (simp add: destroy_def Let_def)
    moreover have "isProcessing ?s1 = isProcessing (bq sys)" by simp
    ultimately show ?thesis using single_flight_started[OF inv fb] Destroy by simp
  next
    case False
    then have "destroy (bq sys) = (None, ?s1)" by (simp add: destroy_def Let_def)
    with inv Destroy show ?thesis by (simp add: started_def single_flight_def)
  qed
next
  case (Settle outcome)
  assume inv: "single_flight sys"
  show ?thesis
  proof (cases "inflight sys")
    case Nil
    with inv Settle show ?thesis by simp
  next
    case (Cons p rest)
    with inv have rest: "rest = []" by (simp add: single_flight_def)
    obtain t items where p: "p = (t, items)" by (cases p)
    obtain res s1 where fe: "flush_end maxArgs (bq sys) items outcome = (res, s1)"
      by (cases "flush_end maxArgs (bq sys) items outcome")
    have "isProcessing s1 = False" using flush_end_flag[of maxArgs "bq sys" items outcome] fe by simp
    with Settle Cons rest p fe show ?thesis
      by (simp add: single_flight_def Let_def split: sum.splits)
  qed
qed

lemma single_flight_run: "single_flight sys \<Longrightarrow> single_flight (run maxArgs sys evs)"
  by (induction evs arbitrary: sys) (simp_all add: single_flight_step)


lemma run_append: "run maxArgs sys (es @ fs) = run maxArgs (run maxArgs sys es) fs"
  by (induction es arbitrary: sys) simp_all

lemma add_below:
  "length (queue s) + 1 < maxBatchSize s \<Longrightarrow> add s x = (None, s\<lparr>queue := queue s @ [x]\<rparr>)"
  by (simp add: add_def Let_def)

lemma add_reaches:
  "length (queue s) + 1 \<ge> maxBatchSize s \<Longrightarrow> \<not> isProcessing s \<Longrightarrow>
     add s x = (Some (Awaiting (queue s @ [x])), s\<lparr>queue := [], isProcessing := True\<rparr>)"
  by (simp add: add_def Let_def flush_begin_def)

lemma run_adds_below:
  "length (queue (bq sys)) + length xs < maxBatchSize (bq sys) \<Longrightarrow>
     run maxArgs sys (map Add xs) = sys\<lparr>bq := (bq sys)\<lparr>queue := queue (bq sys) @ xs\<rparr>\<rparr>"
proof (induction xs arbitrary: sys)
  case Nil
  then show ?case by simp
next
  case (Cons x xs)
  from Cons.prems have a: "add (bq sys) x = (None, (bq sys)\<lparr>queue := queue (bq sys) @ [x]\<rparr>)"
    by (simp add: add_below)
  let ?sys1 = "sys\<lparr>bq := (bq sys)\<lparr>queue := queue (bq sys) @ [x]\<rparr>\<rparr>"
  have s: "step maxArgs sys (Add x) = ?sys1" using a by (simp add: started_def)
  have "run maxArgs ?sys1 (map Add xs) = ?sys1\<lparr>bq := (bq ?sys1)\<lparr>queue := queue (bq ?sys1) @ xs\<rparr>\<rparr>"
    using Cons.prems by (intro Cons.IH) simp
  with s show ?case by simp
qed

lemma run_adds_processing:
  "isProcessing (bq sys) \<Longrightarrow>
     run maxArgs sys (map Add xs) = sys\<lparr>bq := (bq sys)\<lparr>queue := queue (bq sys) @ xs\<rparr>\<rparr>"
proof (induction xs arbitrary: sys)
  case Nil
  then show ?case by simp
next
  case (Cons x xs)
  let ?sys1 = "sys\<lparr>bq := (bq sys)\<lparr>queue := queue (bq sys) @ [x]\<rparr>\<rparr>"
  have s: "step maxArgs sys (Add x) = ?sys1" using Cons.prems
    by (simp add: started_def add_def Let_def flush_begin_def)
  have "run maxArgs ?sys1 (map Add xs) = ?sys1\<lparr>bq := (bq ?sys1)\<lparr>queue := queue (bq ?sys1) @ xs\<rparr>\<rparr>"
    using Cons.prems by (intro Cons.IH) simp
  with s show ?case by simp
qed

lemma run_adds_fresh_below:
  "length xs < n \<Longrightarrow> run maxArgs (newSystem n) (map Add xs) = (newSystem n)\<lparr>bq := (newBatchQueue n)\<lparr>queue := xs\<rparr>\<rparr>"
  using run_adds_below[of "newSystem n" xs] by (simp add: newSystem_def newBatchQueue_def)

lemma run_adds_fresh_exact:
  assumes "length xs = n" and "0 < n"
  shows "run maxArgs (newSystem n) (map Add xs) =
           \<lparr>bq = \<lparr>queue = [], isProcessing = True, maxBatchSize = n, flushInterval = True\<rparr>,
            inflight = [(BySize, xs)], persistCalls = [xs], raised = []\<rparr>"
proof -
  from assms obtain ys y where xs: "xs = ys @ [y]" by (cases xs rule: rev_cases) auto
  with assms have l: "length ys < n" by simp
  have "run maxArgs (newSystem n) (map Add xs) = step maxArgs (run maxArgs (newSystem n) (map Add ys)) (Add y)"
    by (simp add: xs run_append)
  also have "\<dots> = step maxArgs ((newSystem n)\<lparr>bq := (newBatchQueue n)\<lparr>queue := ys\<rparr>\<rparr>) (Add y)"
    by (simp add: run_adds_fresh_below[OF l])
  also have "\<dots> = \<lparr>bq = \<lparr>queue = [], isProcessing = True, maxBatchSize = n, flushInterval = True\<rparr>,
            inflight = [(BySize, xs)], persistCalls = [xs], raised = []\<rparr>"
    using assms xs by (simp add: newSystem_def newBatchQueue_def add_reaches started_def)
  finally show ?thesis .
qed

lemma no_caller_started:
  "no_caller sys \<Longrightarrow> t \<noteq> ByCaller \<Longrightarrow> no_caller (started t r sys)"
  by (auto simp: no_caller_def started_def split: option.splits flush_start.splits)

lemma no_caller_step: "no_caller sys \<Longrightarrow> e \<noteq> Flush \<Longrightarrow> no_caller (step maxArgs sys e)"
proof (cases e)
  case (Settle outcome)
  assume "no_caller sys"
  then show ?thesis using Settle
    by (auto simp: no_caller_def Let_def split: list.splits sum.splits prod.splits)
qed (simp_all add: no_caller_started)

lemma no_caller_run: "no_caller sys \<Longrightarrow> Flush \<notin> set evs \<Longrightarrow> no_caller (run maxArgs sys evs)"
  by (induction evs arbitrary: sys) (auto simp: no_caller_step)

lemma raised_without_caller: "Flush \<notin> set evs \<Longrightarrow> raised (run maxArgs (newSystem n) evs) = []"
  using no_caller_run[of "newSystem n" evs] by (simp add: no_caller_def newSystem_def)

lemma isIgnorableError_iff:
  "isIgnorableError e \<longleftrightarrow>
     (\<exists>c. ((\<exists>m. e = ErrorInstance m (Some c)) \<or> e = OtherObject (Some c)) \<and>
          (\<exists>pre post. c = pre @ ''23505'' @ post \<or> c = pre @ ''23503'' @ post))"
proof (cases e)
  case (ErrorInstance m code)
  then show ?thesis by (cases code) (auto simp: str_includes_iff)
next
  case (OtherObject code)
  then show ?thesis by (cases code) (auto simp: str_includes_iff)
next
  case NonObject
  then show ?thesis by simp
qed

text \<open>
  Claim C4. \<open>flush()\<close> is a no-op whenever the processing flag is set or the buffer
  is empty: it calls no persist function and leaves the queue, and with it the whole
  system state, as it was. Whatever turns the event loop takes from a new queue (calls
  of \<open>add\<close>, awaited calls of \<open>flush()\<close>, timer ticks, \<open>destroy\<close>, persist calls
  settling with any outcome), at most one flush is suspended on its persist call, and
  the flag is set exactly while one is. So no persist call starts while another has not
  settled.
\<close>

theorem flush_single_flight:
  "(isProcessing s \<or> queue s = [] \<longrightarrow> flush_begin s = (NoOp, s)) \<and>
   (isProcessing (bq sys) \<or> queue (bq sys) = [] \<longrightarrow> step maxArgs sys Flush = sys) \<and>
   length (inflight (run maxArgs (newSystem n) evs)) \<le> 1 \<and>
   (isProcessing (bq (run maxArgs (newSystem n) evs)) \<longleftrightarrow> inflight (run maxArgs (newSystem n) evs) \<noteq> [])"
proof -
  have "single_flight (run maxArgs (newSystem n) evs)"
    by (rule single_flight_run) (rule single_flight_new)
  then show ?thesis
    by (auto simp: single_flight_def flush_begin_noop started_def)
qed

theorem flush_single_flight_witness:
  "flush_begin (busyQueue [3, 4]) = (NoOp, busyQueue [3, 4]) \<and>
   flush_begin (newBatchQueue 2 :: nat BatchQueue) = (NoOp, newBatchQueue 2) \<and>
   inflight (run engineLimit (newSystem 2) [Add 3, Add 4, Add 5, Flush, TimerTick]) = [(BySize, [3, 4::nat])] \<and>
   persistCalls (run engineLimit (newSystem 2) [Add 3, Add 4, Add 5, Flush, TimerTick]) = [[3, 4::nat]]"
  using flush_single_flight[of "busyQueue [3, 4]" "newSystem 2" engineLimit 2 "[Add 3, Add 4, Add 5, Flush, TimerTick]"]
    flush_single_flight[of "newBatchQueue 2 :: nat BatchQueue" "newSystem 2" engineLimit 2 "[]"]
  by (simp add: busyQueue_def newBatchQueue_def newSystem_def add_def flush_begin_def started_def
      timerTick_def)

text \<open>
  Claim C10. When the persist call of a flush settles, whether it resolved, was rejected
  with an ignorable error or was rejected with any other error (which \<open>flush()\<close> then
  re-raises), the processing flag is clear afterwards. A next \<open>flush()\<close> on a buffer
  that is not empty then hands the whole buffer to the persist function. In every
  history of a queue the flag is clear right after a persist call has settled.
\<close>

theorem flush_clears_processing_flag:
  "\<not> isProcessing (snd (flush_end maxArgs s items outcome)) \<and>
   (queue (snd (flush_end maxArgs s items outcome)) \<noteq> [] \<longrightarrow>
      fst (flush_begin (snd (flush_end maxArgs s items outcome))) =
        Awaiting (queue (snd (flush_end maxArgs s items outcome)))) \<and>
   \<not> isProcessing (bq (step maxArgs (run maxArgs (newSystem n) evs) (Settle outcome)))"
proof -
  have a: "\<not> isProcessing (snd (flush_end maxArgs s items outcome))"
    by (simp add: flush_end_flag)
  then have b: "queue (snd (flush_end maxArgs s items outcome)) \<noteq> [] \<longrightarrow>
      fst (flush_begin (snd (flush_end maxArgs s items outcome))) =
        Awaiting (queue (snd (flush_end maxArgs s items outcome)))"
    by (simp add: flush_begin_submit)
  have sf: "single_flight (run maxArgs (newSystem n) evs)"
    by (rule single_flight_run) (rule single_flight_new)
  then have "single_flight (step maxArgs (run maxArgs (newSystem n) evs) (Settle outcome))"
    by (rule single_flight_step)
  moreover have "inflight (step maxArgs (run maxArgs (newSystem n) evs) (Settle outcome)) = []"
    using sf by (cases "inflight (run maxArgs (newSystem n) evs)")
      (auto simp: single_flight_def Let_def split: prod.splits sum.splits)
  ultimately have c: "\<not> isProcessing (bq (step maxArgs (run maxArgs (newSystem n) evs) (Settle outcome)))"
    by (simp add: single_flight_def)
  from a b c show ?thesis by blast
qed

theorem flush_clears_processing_flag_witness:
  "\<not> isProcessing (snd (flush_end engineLimit (busyQueue [7]) [3, 4] (Rejected networkError))) \<and>
   queue (snd (flush_end engineLimit (busyQueue [7]) [3, 4] (Rejected networkError))) = [3, 4, 7] \<and>
   fst (flush_begin (snd (flush_end engineLimit (busyQueue [7]) [3, 4] (Rejected networkError)))) = Awaiting [3, 4, 7]"
  using flush_clears_processing_flag[of engineLimit "busyQueue [7]" "[3, 4]" "Rejected networkError" 1 "[]"]
  by (simp add: flush_end_def unshiftSpread_def engineLimit_def flush_begin_def busyQueue_def networkError_def maxQueueSize_def)

section \<open>The batch queue: enqueueing\<close>

text \<open>
  Claim C5. An \<open>add\<close> that leaves the buffer shorter than \<open>maxBatchSize\<close> only appends:
  it does not call \<open>flush()\<close>, so no persist call is made. An \<open>add\<close> that brings the
  buffer to exactly \<open>maxBatchSize\<close> calls \<open>flush()\<close> once, and when no flush is
  suspended that call hands the whole buffer, the new item last, to the persist function
  and empties the buffer. From a new queue, fewer than \<open>maxBatchSize\<close> calls of \<open>add\<close>
  make no persist call and leave the items buffered in order; exactly \<open>maxBatchSize\<close>
  calls make exactly one, with all the items in order. \<open>add\<close> returns before the persist
  call settles, and in a history without an awaited \<open>flush()\<close> no rejection ever reaches
  a caller, whatever the outcomes of the persist calls.
\<close>

theorem add_flushes_at_batch_size:
  "(length (queue s) + 1 < maxBatchSize s \<longrightarrow> add s x = (None, s\<lparr>queue := queue s @ [x]\<rparr>)) \<and>
   (length (queue s) + 1 = maxBatchSize s \<longrightarrow>
      (\<exists>r. fst (add s x) = Some r) \<and>
      (\<not> isProcessing s \<longrightarrow>
         add s x = (Some (Awaiting (queue s @ [x])), s\<lparr>queue := [], isProcessing := True\<rparr>))) \<and>
   (length xs < n \<longrightarrow>
      persistCalls (run maxArgs (newSystem n) (map Add xs)) = [] \<and>
      inflight (run maxArgs (newSystem n) (map Add xs)) = [] \<and>
      queue (bq (run maxArgs (newSystem n) (map Add xs))) = xs) \<and>
   (length xs = n \<and> 0 < n \<longrightarrow>
      persistCalls (run maxArgs (newSystem n) (map Add xs)) = [xs] \<and>
      inflight (run maxArgs (newSystem n) (map Add xs)) = [(BySize, xs)]) \<and>
   (Flush \<notin> set evs \<longrightarrow> raised (run maxArgs (newSystem n) evs) = [])"
proof -
  have 1: "length (queue s) + 1 < maxBatchSize s \<longrightarrow> add s x = (None, s\<lparr>queue := queue s @ [x]\<rparr>)"
    by (simp add: add_below)
  have 2: "length (queue s) + 1 = maxBatchSize s \<longrightarrow>
      (\<exists>r. fst (add s x) = Some r) \<and>
      (\<not> isProcessing s \<longrightarrow>
         add s x = (Some (Awaiting (queue s @ [x])), s\<lparr>queue := [], isProcessing := True\<rparr>))"
    by (simp add: add_def Let_def flush_begin_def)
  have 3: "length xs < n \<longrightarrow>
      persistCalls (run maxArgs (newSystem n) (map Add xs)) = [] \<and>
      inflight (run maxArgs (newSystem n) (map Add xs)) = [] \<and>
      queue (bq (run maxArgs (newSystem n) (map Add xs))) = xs"
    using run_adds_fresh_below[of xs n] by (auto simp: newSystem_def)
  have 4: "length xs = n \<and> 0 < n \<longrightarrow>
      persistCalls (run maxArgs (newSystem n) (map Add xs)) = [xs] \<and>
      inflight (run maxArgs (newSystem n) (map Add xs)) = [(BySize, xs)]"
    by (simp add: run_adds_fresh_exact)
  have 5: "Flush \<notin> set evs \<longrightarrow> raised (run maxArgs (newSystem n) evs) = []"
    by (simp add: raised_without_caller)
  from 1 2 3 4 5 show ?thesis by blast
qed

theorem add_flushes_at_batch_size_witness:
  "add (newBatchQueue 3\<lparr>queue := [5]\<rparr>) 6 = (None, newBatchQueue 3\<lparr>queue := [5, 6::nat]\<rparr>) \<and>
   add (newBatchQueue 3\<lparr>queue := [5, 6]\<rparr>) 7 =
     (Some (Awaiting [5, 6, 7::nat]), newBatchQueue 3\<lparr>queue := [], isProcessing := True\<rparr>) \<and>
   persistCalls (run engineLimit (newSystem 3) (map Add [5, 6::nat])) = [] \<and>
   persistCalls (run engineLimit (newSystem 3) (map Add [5, 6, 7::nat])) = [[5, 6, 7]] \<and>
   raised (run engineLimit (newSystem 3) [Add 5, Add 6, Add 7, Settle (Rejected networkError) :: nat event]) = []"
  using add_flushes_at_batch_size[of "newBatchQueue 3\<lparr>queue := [5]\<rparr>" 6 "[5, 6]" 3 engineLimit
      "[Add 5, Add 6, Add 7, Settle (Rejected networkError)]"]
    add_flushes_at_batch_size[of "newBatchQueue 3\<lparr>queue := [5, 6]\<rparr>" 7 "[5, 6, 7]" 3 engineLimit "[]"]
  by (simp add: newBatchQueue_def newSystem_def add_def flush_begin_def started_def flush_end_def
      unshiftSpread_def engineLimit_def networkError_def maxQueueSize_def)

section \<open>The batch queue: a failed persist call\<close>

text \<open>
  Claim C3. A rejection is ignorable exactly when the thrown value is an object with a
  \<open>code\<close> whose text contains 23505 or 23503. For such a rejection \<open>flush()\<close> resolves
  (nothing is re-raised), the snapshot is not put back, and the queue ends as after a
  persist call that succeeded: the buffer as the calls of \<open>add\<close> during the flush left
  it, the flag clear. With no \<open>add\<close> during the flush the buffer is empty.
\<close>

theorem flush_ignorable_swallowed:
  "(isIgnorableError e \<longleftrightarrow>
      (\<exists>c. ((\<exists>m. e = ErrorInstance m (Some c)) \<or> e = OtherObject (Some c)) \<and>
           (\<exists>pre post. c = pre @ ''23505'' @ post \<or> c = pre @ ''23503'' @ post))) \<and>
   (isIgnorableError e \<longrightarrow>
      flush_end maxArgs s items (Rejected e) = (Inr (), s\<lparr>isProcessing := False\<rparr>) \<and>
      flush_end maxArgs s items (Rejected e) = flush_end maxArgs s items Resolved \<and>
      (flush_begin s0 = (Awaiting items, s) \<longrightarrow>
         snd (flush_end maxArgs s items (Rejected e)) = s0\<lparr>queue := [], isProcessing := False\<rparr>))"
proof -
  have "isIgnorableError e \<longrightarrow>
      flush_end maxArgs s items (Rejected e) = (Inr (), s\<lparr>isProcessing := False\<rparr>) \<and>
      flush_end maxArgs s items (Rejected e) = flush_end maxArgs s items Resolved \<and>
      (flush_begin s0 = (Awaiting items, s) \<longrightarrow>
         snd (flush_end maxArgs s items (Rejected e)) = s0\<lparr>queue := [], isProcessing := False\<rparr>)"
    by (auto simp: flush_end_def flush_begin_def Let_def split: if_splits)
  with isIgnorableError_iff[of e] show ?thesis by blast
qed

theorem flush_ignorable_swallowed_witness:
  "isIgnorableError duplicateError \<and>
   flush_begin (newBatchQueue 1000\<lparr>queue := [3, 4]\<rparr>) = (Awaiting [3, 4], busyQueue []) \<and>
   flush_end engineLimit (busyQueue []) [3, 4] (Rejected duplicateError) = (Inr (), newBatchQueue 1000) \<and>
   flush_end engineLimit (busyQueue []) [3, 4] Resolved = (Inr (), newBatchQueue 1000)"
  using flush_ignorable_swallowed[of duplicateError engineLimit "busyQueue []" "[3, 4]"
      "newBatchQueue 1000\<lparr>queue := [3, 4]\<rparr>"]
  by (simp add: duplicateError_def busyQueue_def newBatchQueue_def flush_begin_def flush_end_def)




text \<open>
  Claim C1 does not hold of the code. The guard of the reinsertion compares the length
  of the buffer before the reinsertion with \<open>maxQueueSize\<close>, not the length after it,
  and its other branch still puts up to 1000 items in front of a buffer that already
  holds 2000 or more. A buffer of 1500 items gets a snapshot of 1000 back and holds
  2500; a buffer of 2000 items gets one item back and holds 2001. The first state is
  reached from a new queue of the default batch size by 1000 calls of \<open>add\<close> (the last
  starts the flush), 1500 more while the persist call is pending, and a network failure
  of that call. The engine passes up to 125000 arguments in one call; any engine that
  passes 1000 gives the same lengths.
\<close>

theorem reinsertion_exceeds_maxQueueSize:
  "length (queue (snd (flush_end engineLimit (busyQueue (replicate 1500 7)) (replicate 1000 3)
                        (Rejected networkError)))) = 2500 \<and>
   length (queue (snd (flush_end engineLimit (busyQueue (replicate 2000 7)) [3] (Rejected networkError)))) = 2001 \<and>
   length (queue (bq (run engineLimit (newSystem 1000)
        (map Add (replicate 1000 (3::nat)) @ map Add (replicate 1500 7) @
         [Settle (Rejected networkError)])))) = 2500"
proof -
  have a: "length (queue (snd (flush_end engineLimit (busyQueue (replicate 1500 7)) (replicate 1000 3)
                        (Rejected networkError)))) = 2500"
    by (simp add: flush_end_def unshiftSpread_def engineLimit_def busyQueue_def networkError_def maxQueueSize_def)
  have b: "length (queue (snd (flush_end engineLimit (busyQueue (replicate 2000 7)) [3] (Rejected networkError)))) = 2001"
    by (simp add: flush_end_def unshiftSpread_def engineLimit_def busyQueue_def networkError_def maxQueueSize_def)
  have r1: "run engineLimit (newSystem 1000) (map Add (replicate 1000 (3::nat))) =
           \<lparr>bq = \<lparr>queue = [], isProcessing = True, maxBatchSize = 1000, flushInterval = True\<rparr>,
            inflight = [(BySize, replicate 1000 3)], persistCalls = [replicate 1000 3], raised = []\<rparr>"
    by (rule run_adds_fresh_exact) simp_all
  let ?s1 = "\<lparr>bq = \<lparr>queue = [], isProcessing = True, maxBatchSize = 1000, flushInterval = True\<rparr>,
            inflight = [(BySize, replicate 1000 3)], persistCalls = [replicate 1000 3],
            raised = []\<rparr> :: nat system"
  have r2: "run engineLimit ?s1 (map Add (replicate 1500 7)) =
      ?s1\<lparr>bq := (bq ?s1)\<lparr>queue := queue (bq ?s1) @ replicate 1500 7\<rparr>\<rparr>"
    by (rule run_adds_processing) simp
  have "run engineLimit (newSystem 1000)
        (map Add (replicate 1000 (3::nat)) @ map Add (replicate 1500 7) @ [Settle (Rejected networkError)])
      = step engineLimit (run engineLimit ?s1 (map Add (replicate 1500 7))) (Settle (Rejected networkError))"
    by (simp only: run_append r1 run.simps)
  then have c: "length (queue (bq (run engineLimit (newSystem 1000)
        (map Add (replicate 1000 (3::nat)) @ map Add (replicate 1500 7) @
         [Settle (Rejected networkError)])))) = 2500"
    by (simp only: r2) (simp add: flush_end_def unshiftSpread_def engineLimit_def networkError_def maxQueueSize_def)
  from a b c show ?thesis by simp
qed

section \<open>The retry wrapper\<close>

lemma retryLoop_retries:
  assumes "\<forall>i. attempt \<le> i \<and> i < k \<longrightarrow> (\<exists>e. fn i = Inl e \<and> isTimeoutError e)"
    and "attempt \<le> k" and "int k \<le> maxRetries"
  shows "\<exists>lastE. retryLoop fn maxRetries d attempt lastError delays =
           retryLoop fn maxRetries d k lastE (delays @ map (\<lambda>i. d * 2 ^ i) [attempt..<k])"
  using assms
proof (induction "k - attempt" arbitrary: attempt lastError delays)
  case 0
  then show ?case by auto
next
  case (Suc n)
  then have lt: "attempt < k" by simp
  with Suc.prems obtain e where e: "fn attempt = Inl e" "isTimeoutError e" by auto
  from lt Suc.prems have "int attempt < maxRetries" by simp
  with e have step: "retryLoop fn maxRetries d attempt lastError delays =
      retryLoop fn maxRetries d (Suc attempt) e (delays @ [d * 2 ^ attempt])"
    by (subst retryLoop.simps) simp
  have "\<exists>lastE. retryLoop fn maxRetries d (Suc attempt) e (delays @ [d * 2 ^ attempt]) =
           retryLoop fn maxRetries d k lastE ((delays @ [d * 2 ^ attempt]) @ map (\<lambda>i. d * 2 ^ i) [Suc attempt..<k])"
    using Suc.hyps Suc.prems lt by (intro Suc.hyps(1)) auto
  moreover have "[attempt..<k] = attempt # [Suc attempt..<k]" using lt by (simp add: upt_conv_Cons)
  ultimately show ?case using step by simp
qed

lemma retryLoop_success:
  "int k \<le> maxRetries \<Longrightarrow> fn k = Inr v \<Longrightarrow> retryLoop fn maxRetries d k lastE delays = (Inr v, delays, Suc k)"
  by (subst retryLoop.simps) simp

lemma retryLoop_raise:
  "int k \<le> maxRetries \<Longrightarrow> fn k = Inl e \<Longrightarrow> \<not> isTimeoutError e \<or> int k = maxRetries \<Longrightarrow>
     retryLoop fn maxRetries d k lastE delays = (Inl e, delays, Suc k)"
  by (subst retryLoop.simps) auto

lemma retryWithBackoff_attempt:
  assumes "\<forall>i<k. \<exists>e. fn i = Inl e \<and> isTimeoutError e" and "int k \<le> maxRetries"
  shows "\<exists>lastE. retryWithBackoff fn maxRetries d =
           retryLoop fn maxRetries d k lastE (map (\<lambda>i. d * 2 ^ i) [0..<k])"
  using retryLoop_retries[of 0 k fn maxRetries d NonObject "[]"] assms
  by (simp add: retryWithBackoff_def)

text \<open>
  A failure that is not classified as a timeout is re-raised at whatever attempt it
  occurs, after the delays of the retries before it and with no further call.
\<close>

lemma retryWithBackoff_not_retryable:
  assumes "\<forall>i<k. \<exists>e. fn i = Inl e \<and> isTimeoutError e" and "int k \<le> maxRetries"
    and "fn k = Inl e" and "\<not> isTimeoutError e"
  shows "retryWithBackoff fn maxRetries d = (Inl e, map (\<lambda>i. d * 2 ^ i) [0..<k], Suc k)"
proof -
  from retryWithBackoff_attempt[OF assms(1,2)] obtain lastE where
    "retryWithBackoff fn maxRetries d = retryLoop fn maxRetries d k lastE (map (\<lambda>i. d * 2 ^ i) [0..<k])"
    by blast
  with assms show ?thesis by (simp add: retryLoop_raise)
qed

lemma failTwiceThenOk_fails: "\<forall>i<2. \<exists>e. failTwiceThenOk i = Inl e \<and> isTimeoutError e"
  by (simp add: failTwiceThenOk_def)

lemma alwaysFails_fails: "isTimeoutError e \<Longrightarrow> \<forall>i<k. \<exists>e'. alwaysFails e i = Inl e' \<and> isTimeoutError e'"
  by (simp add: alwaysFails_def)

text \<open>
  Claim C6. Let the first \<open>k\<close> attempts fail with errors classified as timeouts, with
  \<open>k\<close> at most \<open>maxRetries\<close>. Then the wrapper makes attempt \<open>k\<close>, having slept
  \<open>initialDelay * 2 ^ i\<close> after each failed attempt \<open>i\<close> (counted from 0) and not
  otherwise: \<open>k\<close> delayed retries. If attempt \<open>k\<close> succeeds, the wrapper returns its
  value. If \<open>k\<close> is \<open>maxRetries\<close> and that attempt fails too, the wrapper re-raises
  the failure of that attempt, the last one observed, after \<open>maxRetries + 1\<close> calls
  of the operation and \<open>maxRetries\<close> delays.
\<close>

theorem retry_backoff_schedule:
  "(\<forall>i<k. \<exists>e. fn i = Inl e \<and> isTimeoutError e) \<Longrightarrow> int k \<le> maxRetries \<Longrightarrow>
     (fn k = Inr v \<longrightarrow>
        retryWithBackoff fn maxRetries d = (Inr v, map (\<lambda>i. d * 2 ^ i) [0..<k], Suc k)) \<and>
     (fn k = Inl e \<and> int k = maxRetries \<longrightarrow>
        retryWithBackoff fn maxRetries d = (Inl e, map (\<lambda>i. d * 2 ^ i) [0..<k], Suc k))"
proof -
  assume a: "\<forall>i<k. \<exists>e. fn i = Inl e \<and> isTimeoutError e" and b: "int k \<le> maxRetries"
  from retryWithBackoff_attempt[OF a b] obtain lastE where
    r: "retryWithBackoff fn maxRetries d = retryLoop fn maxRetries d k lastE (map (\<lambda>i. d * 2 ^ i) [0..<k])"
    by blast
  show ?thesis
    using b by (auto simp: r retryLoop_success retryLoop_raise)
qed

theorem retry_backoff_schedule_witness:
  "failTwiceThenOk 0 = Inl (ErrorInstance ''statement timeout'' None) \<and>
   failTwiceThenOk 1 = Inl (ErrorInstance ''statement timeout'' None) \<and>
   isTimeoutError (ErrorInstance ''statement timeout'' None) \<and>
   retryWithBackoff failTwiceThenOk 3 1000 = (Inr ''row'', [1000, 2000], 3) \<and>
   retryWithBackoff (alwaysFails (ErrorInstance ''fetch failed'' None)) 3 1000 =
     (Inl (ErrorInstance ''fetch failed'' None), [1000, 2000, 4000], 4)"
proof -
  have t: "isTimeoutError (ErrorInstance ''fetch failed'' None)" by simp
  have u: "[0..<3] = [0, 1, 2]" "[0..<2] = [0, 1]" by (simp_all add: upt_rec)
  have ok: "failTwiceThenOk 2 = Inr ''row''" by (simp add: failTwiceThenOk_def)
  from retry_backoff_schedule[OF failTwiceThenOk_fails, of 3 "''row''" 1000]
  have 1: "retryWithBackoff failTwiceThenOk 3 1000 = (Inr ''row'', [1000, 2000], 3)"
    by (simp add: ok u)
  have ko: "alwaysFails (ErrorInstance ''fetch failed'' None) 3 = Inl (ErrorInstance ''fetch failed'' None)"
    by (simp add: alwaysFails_def)
  from retry_backoff_schedule[OF alwaysFails_fails[OF t, of 3], of 3 _ 1000 "ErrorInstance ''fetch failed'' None"]
  have 2: "retryWithBackoff (alwaysFails (ErrorInstance ''fetch failed'' None)) 3 1000 =
     (Inl (ErrorInstance ''fetch failed'' None), [1000, 2000, 4000], 4)"
    by (simp add: ko u)
  have 3: "failTwiceThenOk 0 = Inl (ErrorInstance ''statement timeout'' None)"
    "failTwiceThenOk 1 = Inl (ErrorInstance ''statement timeout'' None)"
    "isTimeoutError (ErrorInstance ''statement timeout'' None)"
    by (simp_all add: failTwiceThenOk_def)
  from 1 2 3 show ?thesis by blast
qed

text \<open>
  Claim C7, as the specification states it, fails: the classification is not
  insensitive to case. A message with "Timeout" spelled with a capital T only (and not
  after "Connect ") contains none of the four texts the code looks for; the failure is
  re-raised on the first attempt although the specification's wording classifies it as
  retryable.
\<close>

theorem timeout_case_insensitive_counterexample:
  "spec_retryable ''Request Timeout'' \<and>
   \<not> isTimeoutError (ErrorInstance ''Request Timeout'' None) \<and>
   retryWithBackoff (alwaysFails (ErrorInstance ''Request Timeout'' None)) 3 1000 =
     (Inl (ErrorInstance ''Request Timeout'' None), [], 1)"
proof -
  have 1: "spec_retryable ''Request Timeout''"
    by code_simp
  have 2: "\<not> isTimeoutError (ErrorInstance ''Request Timeout'' None)"
    by simp
  have 3: "retryWithBackoff (alwaysFails (ErrorInstance ''Request Timeout'' None)) 3 1000 =
     (Inl (ErrorInstance ''Request Timeout'' None), [], 1)"
    unfolding retryWithBackoff_def using 2
    by (subst retryLoop.simps) (simp add: alwaysFails_def)
  from 1 2 3 show ?thesis by blast
qed

text \<open>
  Claim C7, amended. A failure is classified as retryable exactly when it is an instance
  of \<open>Error\<close> whose message contains, spelled exactly so, one of "timeout", "TIMEOUT",
  "Connect Timeout" or "fetch failed". When the first attempt is made and fails with a
  failure not so classified, that failure is re-raised at once: one call of the
  operation, no retry and no delay.
\<close>

theorem timeout_classification:
  "(isTimeoutError e \<longleftrightarrow>
      (\<exists>message code. e = ErrorInstance message code \<and>
         (\<exists>sub \<in> {''timeout'', ''TIMEOUT'', ''Connect Timeout'', ''fetch failed''}.
            \<exists>pre post. message = pre @ sub @ post))) \<and>
   (0 \<le> maxRetries \<and> fn 0 = Inl e \<and> \<not> isTimeoutError e \<longrightarrow>
      retryWithBackoff fn maxRetries d = (Inl e, [], 1))"
proof -
  have 1: "isTimeoutError e \<longleftrightarrow>
      (\<exists>message code. e = ErrorInstance message code \<and>
         (\<exists>sub \<in> {''timeout'', ''TIMEOUT'', ''Connect Timeout'', ''fetch failed''}.
            \<exists>pre post. message = pre @ sub @ post))"
    by (cases e) (simp_all add: str_includes_iff)
  have 2: "0 \<le> maxRetries \<and> fn 0 = Inl e \<and> \<not> isTimeoutError e \<longrightarrow>
      retryWithBackoff fn maxRetries d = (Inl e, [], 1)"
    unfolding retryWithBackoff_def by (subst retryLoop.simps) simp
  from 1 2 show ?thesis by blast
qed

theorem timeout_classification_witness:
  "isTimeoutError (ErrorInstance ''Connect Timeout Error'' None) \<and>
   \<not> isTimeoutError (ErrorInstance ''relation does not exist'' (Some ''42P01'')) \<and>
   retryWithBackoff (alwaysFails (ErrorInstance ''relation does not exist'' (Some ''42P01''))) 3 1000 =
     (Inl (ErrorInstance ''relation does not exist'' (Some ''42P01'')), [], 1)"
proof -
  have ko: "alwaysFails (ErrorInstance ''relation does not exist'' (Some ''42P01'')) 0 =
      Inl (ErrorInstance ''relation does not exist'' (Some ''42P01''))"
    by (simp add: alwaysFails_def)
  show ?thesis
    using timeout_classification[of "ErrorInstance ''relation does not exist'' (Some ''42P01'')" 3
      "alwaysFails (ErrorInstance ''relation does not exist'' (Some ''42P01''))" 1000]
    by (simp add: ko)
qed

section \<open>The identifier generator\<close>

lemma charAt_length: "i < length uidAlphabet \<Longrightarrow> length (charAt uidAlphabet i) = 1"
  by (simp add: charAt_def)

lemma charAt_member: "i < length uidAlphabet \<Longrightarrow> c \<in> set (charAt uidAlphabet i) \<Longrightarrow> c \<in> set uidAlphabet"
  by (simp add: charAt_def)

lemma length_concat_singletons:
  "(\<And>x. x \<in> set xs \<Longrightarrow> length (f x) = 1) \<Longrightarrow> length (concat (map f xs)) = length xs"
  by (induction xs) simp_all

lemma random_index:
  assumes "0 \<le> r" and "r < 1"
  shows "nat \<lfloor>r * real (length uidAlphabet)\<rfloor> < length uidAlphabet"
proof -
  have n: "length uidAlphabet = 37" by (simp add: uidAlphabet_def)
  have "r * 37 < 37" using assms by simp
  then have "\<lfloor>r * 37\<rfloor> < 37" by (simp add: floor_less_iff)
  moreover have "0 \<le> \<lfloor>r * 37\<rfloor>" using assms by simp
  ultimately have "nat \<lfloor>r * 37\<rfloor> < (37::nat)" by linarith
  then show ?thesis by (simp add: n)
qed

lemma generateUid_shape:
  assumes "validSource len src"
  shows "length (generateUid len src) = len \<and> set (generateUid len src) \<subseteq> set uidAlphabet"
proof (cases src)
  case (CryptoValues rv)
  have pos: "0 < length uidAlphabet" by (simp add: uidAlphabet_def)
  have idx: "\<And>i. unat (rv i) mod length uidAlphabet < length uidAlphabet"
    using pos by simp
  have "length (generateUid len src) = len"
    unfolding generateUid_def CryptoValues
    using length_concat_singletons[of "[0..<len]" "\<lambda>i. charAt uidAlphabet (unat (rv i) mod length uidAlphabet)"]
      charAt_length[OF idx] by simp
  moreover have "set (generateUid len src) \<subseteq> set uidAlphabet"
    unfolding generateUid_def CryptoValues using charAt_member[OF idx] by auto
  ultimately show ?thesis by simp
next
  case (MathRandom r)
  with assms have v: "\<And>i. i < len \<Longrightarrow> 0 \<le> r i \<and> r i < 1" by (simp add: validSource_def)
  have idx: "\<And>i. i < len \<Longrightarrow> nat \<lfloor>r i * real (length uidAlphabet)\<rfloor> < length uidAlphabet"
    using v random_index by blast
  have "length (generateUid len src) = len"
    unfolding generateUid_def MathRandom
    using length_concat_singletons[of "[0..<len]" "\<lambda>i. charAt uidAlphabet (nat \<lfloor>r i * real (length uidAlphabet)\<rfloor>)"]
      charAt_length[OF idx] by simp
  moreover have "set (generateUid len src) \<subseteq> set uidAlphabet"
    unfolding generateUid_def MathRandom using charAt_member[OF idx] by auto
  ultimately show ?thesis by simp
qed


lemma uidLoop_collisions:
  assumes "\<forall>i. attempts \<le> i \<and> i < k \<longrightarrow> collides (lookup i (generateUid 21 (rnd i)))"
    and "attempts \<le> k" and "k \<le> maxAttempts"
  shows "uidLoop rnd lookup attempts = uidLoop rnd lookup k"
  using assms
proof (induction "k - attempts" arbitrary: attempts)
  case 0
  then show ?case by simp
next
  case (Suc n)
  then have lt: "attempts < k" by simp
  with Suc.prems have c: "collides (lookup attempts (generateUid 21 (rnd attempts)))" by simp
  from lt Suc.prems have "attempts < maxAttempts" by simp
  with c have "uidLoop rnd lookup attempts = uidLoop rnd lookup (Suc attempts)"
    by (subst uidLoop.simps) (auto simp: collides_def Let_def split: sum.splits option.splits)
  moreover have "uidLoop rnd lookup (Suc attempts) = uidLoop rnd lookup k"
    using Suc.hyps Suc.prems lt by (intro Suc.hyps(1)) auto
  ultimately show ?case by simp
qed

lemma uidLoop_unique:
  "k < maxAttempts \<Longrightarrow> unique (lookup k (generateUid 21 (rnd k))) \<Longrightarrow>
     uidLoop rnd lookup k = (Inr (Some (generateUid 21 (rnd k)), k), Suc k)"
  by (subst uidLoop.simps) (auto simp: unique_def Let_def)

lemma uidLoop_exhausted: "uidLoop rnd lookup maxAttempts = (Inr (None, maxAttempts), maxAttempts)"
  by (subst uidLoop.simps) simp

lemma length_concat_nonempty:
  "(\<And>x. x \<in> set xs \<Longrightarrow> f x \<noteq> []) \<Longrightarrow> length xs \<le> length (concat (map f xs))"
proof (induction xs)
  case Nil
  then show ?case by simp
next
  case (Cons x xs)
  then have "f x \<noteq> []" by simp
  then have "1 \<le> length (f x)" by (cases "f x") simp_all
  moreover have "length xs \<le> length (concat (map f xs))" using Cons by simp
  ultimately show ?case by simp
qed

lemma charAt_nonempty: "charAt s i \<noteq> []"
  by (simp add: charAt_def)

lemma generateUid_nonempty: "0 < len \<Longrightarrow> generateUid len src \<noteq> []"
proof -
  assume p: "0 < len"
  have "len \<le> length (generateUid len src)"
  proof (cases src)
    case (CryptoValues rv)
    show ?thesis unfolding generateUid_def CryptoValues
      using length_concat_nonempty[of "[0..<len]" "\<lambda>i. charAt uidAlphabet (unat (rv i) mod length uidAlphabet)"]
      by (simp add: charAt_nonempty)
  next
    case (MathRandom r)
    show ?thesis unfolding generateUid_def MathRandom
      using length_concat_nonempty[of "[0..<len]" "\<lambda>i. charAt uidAlphabet (nat \<lfloor>r i * real (length uidAlphabet)\<rfloor>)"]
      by (simp add: charAt_nonempty)
  qed
  with p show ?thesis by auto
qed

lemma createLinktreeUid_found:
  assumes "\<forall>i<k. collides (lookup i (generateUid 21 (rnd i)))" and "k < 10"
    and "unique (lookup k (generateUid 21 (rnd k)))"
  shows "createLinktreeUid rnd lookup = (Inr (generateUid 21 (rnd k)), Suc k)"
proof -
  from assms have "uidLoop rnd lookup 0 = uidLoop rnd lookup k"
    by (intro uidLoop_collisions) (simp_all add: maxAttempts_def)
  also have "\<dots> = (Inr (Some (generateUid 21 (rnd k)), k), Suc k)"
    using assms by (intro uidLoop_unique) (simp_all add: maxAttempts_def)
  finally show ?thesis
    using assms(2) generateUid_nonempty[of 21 "rnd k"]
    by (simp add: createLinktreeUid_def maxAttempts_def)
qed

lemma createLinktreeUid_exhausted:
  assumes "\<forall>i<10. collides (lookup i (generateUid 21 (rnd i)))"
  shows "createLinktreeUid rnd lookup = (Inl GenerationExhausted, 10)"
proof -
  from assms have "uidLoop rnd lookup 0 = uidLoop rnd lookup maxAttempts"
    by (intro uidLoop_collisions) (simp_all add: maxAttempts_def)
  then have "uidLoop rnd lookup 0 = (Inr (None, maxAttempts), maxAttempts)"
    by (simp only: uidLoop_exhausted)
  then show ?thesis
    by (simp add: createLinktreeUid_def maxAttempts_def)
qed

text \<open>
  Claim C8. \<open>generateUid()\<close> gives a string of 21 characters, each from the alphabet
  of lowercase letters, digits and the hyphen. If the uniqueness lookup reports a
  collision for each of the first \<open>k\<close> identifiers, \<open>k\<close> below 10, and none for the
  next, the generator returns that identifier, the first unique one, after exactly
  \<open>k + 1\<close> calls of \<open>generateUid\<close> (three when the first two collide). If the lookup
  reports a collision for all 10 identifiers, the generator fails with the
  GenerationExhausted error after exactly 10 calls and returns no identifier.
\<close>

theorem identifier_generator:
  "(validSource 21 src \<longrightarrow>
      length (generateUid 21 src) = 21 \<and> set (generateUid 21 src) \<subseteq> set uidAlphabet) \<and>
   ((\<forall>i<k. collides (lookup i (generateUid 21 (rnd i)))) \<and> k < 10 \<and>
    unique (lookup k (generateUid 21 (rnd k))) \<longrightarrow>
      createLinktreeUid rnd lookup = (Inr (generateUid 21 (rnd k)), Suc k)) \<and>
   ((\<forall>i<10. collides (lookup i (generateUid 21 (rnd i)))) \<longrightarrow>
      createLinktreeUid rnd lookup = (Inl GenerationExhausted, 10))"
  using generateUid_shape[of 21 src] createLinktreeUid_found[of k lookup rnd]
    createLinktreeUid_exhausted[of lookup rnd]
  by blast

theorem identifier_generator_witness:
  "length (generateUid 21 (counterRandom 2)) = 21 \<and>
   length (generateUid 21 halfRandom) = 21 \<and>
   set (generateUid 21 halfRandom) \<subseteq> set uidAlphabet \<and>
   collides (collideTwice 0 (generateUid 21 (counterRandom 0))) \<and>
   collides (collideTwice 1 (generateUid 21 (counterRandom 1))) \<and>
   unique (collideTwice 2 (generateUid 21 (counterRandom 2))) \<and>
   generateUid 21 (counterRandom 2) = ''cdefghijklmnopqrstuvw'' \<and>
   createLinktreeUid counterRandom collideTwice = (Inr ''cdefghijklmnopqrstuvw'', 3) \<and>
   createLinktreeUid counterRandom alwaysCollide = (Inl GenerationExhausted, 10)"
proof -
  have v: "validSource 21 (counterRandom 2)"
    by (simp add: validSource_def counterRandom_def)
  have c: "\<forall>i<2. collides (collideTwice i (generateUid 21 (counterRandom i)))"
    by (simp add: collideTwice_def collides_def)
  have u: "unique (collideTwice 2 (generateUid 21 (counterRandom 2)))"
    by (simp add: collideTwice_def unique_def)
  have g: "generateUid 21 (counterRandom 2) = ''cdefghijklmnopqrstuvw''"
    by code_simp
  have a: "\<forall>i<10. collides (alwaysCollide i (generateUid 21 (counterRandom i)))"
    by (simp add: alwaysCollide_def collides_def)
  from identifier_generator[of "counterRandom 2" 2 collideTwice counterRandom] v c u g
  have 1: "createLinktreeUid counterRandom collideTwice = (Inr ''cdefghijklmnopqrstuvw'', 3)"
    by simp
  from identifier_generator[of "counterRandom 2" 2 alwaysCollide counterRandom] a
  have 2: "createLinktreeUid counterRandom alwaysCollide = (Inl GenerationExhausted, 10)"
    by blast
  from identifier_generator[of "counterRandom 2" 2 collideTwice counterRandom] v
  have 3: "length (generateUid 21 (counterRandom 2)) = 21"
    by blast
  have 4: "collides (collideTwice 0 (generateUid 21 (counterRandom 0)))"
    "collides (collideTwice 1 (generateUid 21 (counterRandom 1)))"
    using c by simp_all
  have h: "validSource 21 halfRandom"
    by (simp add: validSource_def halfRandom_def)
  from identifier_generator[of halfRandom 2 collideTwice counterRandom] h
  have 5: "length (generateUid 21 halfRandom) = 21" "set (generateUid 21 halfRandom) \<subseteq> set uidAlphabet"
    by blast+
  from 3 4 5 u g 1 2 show ?thesis by blast
qed

section \<open>The enqueue entry points\<close>

lemma add_queue_cases: "queue (snd (add q v)) = queue q @ [v] \<or> queue (snd (add q v)) = []"
  by (simp add: add_def Let_def flush_begin_def)

lemma addView_invalid: "\<not> validView view \<Longrightarrow> addView w st view = (None, st)"
  by (auto simp: addView_def validView_def blank_iff split: option.splits)

lemma addClick_invalid: "\<not> validClick click \<Longrightarrow> addClick w st click = (None, st)"
  by (auto simp: addClick_def validClick_def blank_iff split: option.splits)

lemma addView_valid:
  "validView (Some v) \<Longrightarrow> viewQueue st = Some q \<Longrightarrow>
     addView w st (Some v) = (fst (add q v), st\<lparr>viewQueue := Some (snd (add q v))\<rparr>)"
  by (simp add: addView_def validView_def blank_iff split: prod.splits)

lemma addClick_valid:
  "validClick (Some c) \<Longrightarrow> clickQueue st = Some q \<Longrightarrow>
     addClick w st (Some c) = (fst (add q c), st\<lparr>clickQueue := Some (snd (add q c))\<rparr>)"
  by (simp add: addClick_def validClick_def blank_iff split: prod.splits)

lemma initializeQueues_viewBuffer:
  "viewQueue st = None \<Longrightarrow> viewBuffer (initializeQueues w st) = []"
  by (simp add: initializeQueues_def viewBuffer_def newBatchQueue_def Let_def)

lemma initializeQueues_clickBuffer:
  "clickQueue st = None \<Longrightarrow> clickBuffer (initializeQueues w st) = []"
  by (simp add: initializeQueues_def clickBuffer_def newBatchQueue_def Let_def)

lemma addView_buffer:
  "set (viewBuffer (snd (addView w st view))) \<subseteq> set (viewBuffer st) \<union> {v. view = Some v \<and> validView view}"
proof (cases "validView view")
  case False
  then show ?thesis by (simp add: addView_invalid)
next
  case True
  then obtain v where v: "view = Some v" by (auto simp: validView_def split: option.splits)
  let ?st1 = "if viewQueue st = None then initializeQueues w st else st"
  have b: "set (viewBuffer ?st1) \<subseteq> set (viewBuffer st)"
    by (simp add: initializeQueues_viewBuffer)
  show ?thesis
  proof (cases "viewQueue ?st1")
    case None
    with True v have "snd (addView w st view) = ?st1"
      by (simp add: addView_def validView_def blank_iff)
    with b show ?thesis by auto
  next
    case (Some q)
    with True v have "viewBuffer (snd (addView w st view)) = queue (snd (add q v))"
      by (simp add: addView_def validView_def blank_iff viewBuffer_def split: prod.splits)
    moreover have "viewBuffer ?st1 = queue q" using Some by (simp add: viewBuffer_def)
    ultimately show ?thesis using add_queue_cases[of q v] b True v by auto
  qed
qed

lemma addClick_buffer:
  "set (clickBuffer (snd (addClick w st click))) \<subseteq> set (clickBuffer st) \<union> {c. click = Some c \<and> validClick click}"
proof (cases "validClick click")
  case False
  then show ?thesis by (simp add: addClick_invalid)
next
  case True
  then obtain c where c: "click = Some c" by (auto simp: validClick_def split: option.splits)
  let ?st1 = "if clickQueue st = None then initializeQueues w st else st"
  have b: "set (clickBuffer ?st1) \<subseteq> set (clickBuffer st)"
    by (simp add: initializeQueues_clickBuffer)
  show ?thesis
  proof (cases "clickQueue ?st1")
    case None
    with True c have "snd (addClick w st click) = ?st1"
      by (simp add: addClick_def validClick_def blank_iff)
    with b show ?thesis by auto
  next
    case (Some q)
    with True c have "clickBuffer (snd (addClick w st click)) = queue (snd (add q c))"
      by (simp add: addClick_def validClick_def blank_iff clickBuffer_def split: prod.splits)
    moreover have "clickBuffer ?st1 = queue q" using Some by (simp add: clickBuffer_def)
    ultimately show ?thesis using add_queue_cases[of q c] b True c by auto
  qed
qed

text \<open>
  Claim C9. When a required reference field (page id or visitor address of a view;
  link id, page id or visitor address of a click) is missing or empty after trimming,
  or the event itself is missing, \<open>addView\<close> and \<open>addClick\<close> return normally, call
  neither \<open>add\<close> nor a persist function, and leave both queues as they were. Whatever
  the input, the only event that can be new in the buffer after the call is the event
  passed in, and then only if all its required fields are non-empty after trimming. An
  event with all required fields non-empty is handed to \<open>add\<close> of its queue.
\<close>

theorem enqueue_validation:
  "(\<not> validView view \<longrightarrow> addView w st view = (None, st)) \<and>
   (\<not> validClick click \<longrightarrow> addClick w st click = (None, st)) \<and>
   set (viewBuffer (snd (addView w st view))) \<subseteq> set (viewBuffer st) \<union> {v. view = Some v \<and> validView view} \<and>
   set (clickBuffer (snd (addClick w st click))) \<subseteq> set (clickBuffer st) \<union> {c. click = Some c \<and> validClick click} \<and>
   (validView (Some v) \<and> viewQueue st = Some q \<longrightarrow>
      addView w st (Some v) = (fst (add q v), st\<lparr>viewQueue := Some (snd (add q v))\<rparr>)) \<and>
   (validClick (Some c) \<and> clickQueue st = Some q' \<longrightarrow>
      addClick w st (Some c) = (fst (add q' c), st\<lparr>clickQueue := Some (snd (add q' c))\<rparr>))"
  using addView_invalid[of view w st] addClick_invalid[of click w st]
    addView_buffer[of w st view] addClick_buffer[of w st click]
    addView_valid[of v st q w] addClick_valid[of c st q' w]
  by blast

theorem enqueue_validation_witness:
  "\<not> validView (Some (sampleView ''   '')) \<and>
   addView False emptyQueues (Some (sampleView ''   '')) = (None, emptyQueues) \<and>
   \<not> validClick (Some (sampleClick [])) \<and>
   addClick False emptyQueues (Some (sampleClick [])) = (None, emptyQueues) \<and>
   validView (Some (sampleView ''P1'')) \<and>
   viewBuffer (snd (addView False emptyQueues (Some (sampleView ''P1'')))) = [sampleView ''P1''] \<and>
   validClick (Some (sampleClick ''L1'')) \<and>
   clickBuffer (snd (addClick False emptyQueues (Some (sampleClick ''L1'')))) = [sampleClick ''L1'']"
proof -
  have ws: "isWhiteSpace CHR '' ''" by (simp add: isWhiteSpace_def)
  have nws: "\<not> isWhiteSpace CHR ''P''" "\<not> isWhiteSpace CHR ''L''" "\<not> isWhiteSpace CHR ''2''"
    by (simp_all add: isWhiteSpace_def)
  have a: "\<not> validView (Some (sampleView ''   ''))"
    by (simp add: validView_def nonEmptyAfterTrim_def sampleView_def trim_def ws)
  have b: "\<not> validClick (Some (sampleClick []))"
    by (simp add: validClick_def nonEmptyAfterTrim_def sampleClick_def trim_def)
  have c: "validView (Some (sampleView ''P1''))"
    by (simp add: validView_def nonEmptyAfterTrim_def sampleView_def trim_def nws)
  have d: "validClick (Some (sampleClick ''L1''))"
    by (simp add: validClick_def nonEmptyAfterTrim_def sampleClick_def trim_def nws)
  have qv: "viewQueue emptyQueues = Some (newBatchQueue 1000)"
    and qc: "clickQueue emptyQueues = Some (newBatchQueue 1000)"
    by (simp_all add: emptyQueues_def)
  note t1 = enqueue_validation[of "Some (sampleView ''   '')" False emptyQueues "Some (sampleClick [])"
      "sampleView ''P1''" "newBatchQueue 1000" "sampleClick ''L1''" "newBatchQueue 1000"]
  from t1 a have 1: "addView False emptyQueues (Some (sampleView ''   '')) = (None, emptyQueues)" by blast
  from t1 b have 2: "addClick False emptyQueues (Some (sampleClick [])) = (None, emptyQueues)" by blast
  from t1 c qv have "addView False emptyQueues (Some (sampleView ''P1'')) =
      (fst (add (newBatchQueue 1000) (sampleView ''P1'')),
       emptyQueues\<lparr>viewQueue := Some (snd (add (newBatchQueue 1000) (sampleView ''P1'')))\<rparr>)" by blast
  then have 3: "viewBuffer (snd (addView False emptyQueues (Some (sampleView ''P1'')))) = [sampleView ''P1'']"
    by (simp add: viewBuffer_def add_def newBatchQueue_def)
  from t1 d qc have "addClick False emptyQueues (Some (sampleClick ''L1'')) =
      (fst (add (newBatchQueue 1000) (sampleClick ''L1'')),
       emptyQueues\<lparr>clickQueue := Some (snd (add (newBatchQueue 1000) (sampleClick ''L1'')))\<rparr>)" by blast
  then have 4: "clickBuffer (snd (addClick False emptyQueues (Some (sampleClick ''L1'')))) = [sampleClick ''L1'']"
    by (simp add: clickBuffer_def add_def newBatchQueue_def)
  from a 1 b 2 c 3 d 4 show ?thesis by blast
qed

end
